theory Spec2Isabelle
  imports Complex_Main
begin

section \<open>The Connect-Four environment of connect4Env.py\<close>

text \<open>
  The class \<open>Connect4Env\<close> keeps five fields: \<open>rows\<close>, \<open>cols\<close>, \<open>win_length\<close>,
  the numpy array \<open>board\<close> of shape \<open>(rows, cols)\<close> and \<open>current_player\<close>.
  The array is a list of rows, row 0 being the top row. \<open>np.zeros\<close> refuses a
  negative dimension, so \<open>rows\<close> and \<open>cols\<close> are natural numbers; \<open>win_length\<close> is
  any Python integer. The cells have dtype int8; the only values the class ever stores
  are 0 and \<open>current_player\<close>, which is 1 or -1, so no store and no product of the
  class leaves the int8 range, and the cells are integers here. The predicate \<open>env_ok\<close>
  below records the shape and these value ranges.
\<close>

record env =
  rows :: nat
  cols :: nat
  win_length :: int
  board :: "int list list"
  current_player :: int

datatype py_error = IndexError

text \<open>
  The tuple \<open>(observation, reward, done, info)\<close> returned by \<open>step\<close>. The rewards are
  the float literals -10.0, 1.0 and 0.0, on which the class does no arithmetic. The \<open>info\<close>
  dictionary is the list of its key-value pairs, in the order of the dict literal.
\<close>

record step_result =
  obs :: "int list list"
  reward :: real
  is_done :: bool
  info :: "(string \<times> string) list"

subsection \<open>Python's \<open>str\<close> on integers\<close>

definition digit_char :: "nat \<Rightarrow> char" where
  "digit_char d = ''0123456789'' ! d"

function str_nat :: "nat \<Rightarrow> string" where
  "str_nat n = (if n < 10 then [digit_char n] else str_nat (n div 10) @ [digit_char (n mod 10)])"
  by pat_completeness auto
termination
  by (relation "measure (\<lambda>n. n)") auto

declare str_nat.simps [simp del]

definition str_int :: "int \<Rightarrow> string" where
  "str_int i = (if i < 0 then CHR ''-'' # str_nat (nat (- i)) else str_nat (nat i))"

subsection \<open>Construction, observation, reset\<close>

definition zeros :: "nat \<Rightarrow> nat \<Rightarrow> int list list" where
  "zeros r c = replicate r (replicate c 0)"

definition init :: "nat \<Rightarrow> nat \<Rightarrow> int \<Rightarrow> env" where
  "init r c w = \<lparr>rows = r, cols = c, win_length = w, board = zeros r c, current_player = 1\<rparr>"

definition get_observation :: "env \<Rightarrow> int list list" where
  "get_observation s = map (map (\<lambda>x. x * current_player s)) (board s)"

definition reset :: "env \<Rightarrow> int list list \<times> env" where
  "reset s =
     (let s' = s\<lparr>board := zeros (rows s) (cols s), current_player := 1\<rparr>
      in (get_observation s', s'))"

subsection \<open>Reading the board\<close>

text \<open>
  \<open>board[r, c]\<close> for indices that are not negative: numpy raises IndexError outside
  the array. The class reads the top row \<open>board[0, col]\<close> without looking at \<open>rows\<close>,
  which fails on a board with no rows.
\<close>

definition board_get :: "int list list \<Rightarrow> nat \<Rightarrow> nat \<Rightarrow> py_error + int" where
  "board_get b r c =
     (if r < length b \<and> c < length (b ! r) then Inr (b ! r ! c) else Inl IndexError)"

fun valid_from :: "env \<Rightarrow> nat list \<Rightarrow> py_error + nat list" where
  "valid_from s [] = Inr []"
| "valid_from s (col # cs) =
     (case board_get (board s) 0 col of
        Inl e \<Rightarrow> Inl e
      | Inr v \<Rightarrow>
          (case valid_from s cs of
             Inl e \<Rightarrow> Inl e
           | Inr acc \<Rightarrow> Inr (if v = 0 then col # acc else acc)))"

definition get_valid_actions :: "env \<Rightarrow> py_error + nat list" where
  "get_valid_actions s = valid_from s [0..<cols s]"

definition is_valid_action :: "env \<Rightarrow> int \<Rightarrow> py_error + bool" where
  "is_valid_action s col =
     (if \<not> (0 \<le> col \<and> col < int (cols s)) then Inr False
      else (case board_get (board s) 0 (nat col) of
              Inl e \<Rightarrow> Inl e
            | Inr v \<Rightarrow> Inr (v = 0)))"

subsection \<open>Placing a piece\<close>

text \<open>
  \<open>for r in range(rows - 1, -1, -1)\<close>: the counter \<open>Suc r\<close> runs from \<open>rows\<close> down
  to 1, so \<open>r\<close> runs from the bottom row \<open>rows - 1\<close> up to row 0. The column has been
  checked by \<open>_is_valid_action\<close> before the call, and \<open>r\<close> is below \<open>rows\<close>.
\<close>

fun place_loop :: "int list list \<Rightarrow> nat \<Rightarrow> nat \<Rightarrow> int \<Rightarrow> int list list \<times> nat option" where
  "place_loop b 0 col player = (b, None)"
| "place_loop b (Suc r) col player =
     (if b ! r ! col = 0 then (b[r := (b ! r)[col := player]], Some r)
      else place_loop b r col player)"

definition place_piece :: "env \<Rightarrow> nat \<Rightarrow> int \<Rightarrow> env \<times> nat option" where
  "place_piece s col player =
     (case place_loop (board s) (rows s) col player of
        (b, r) \<Rightarrow> (s\<lparr>board := b\<rparr>, r))"

subsection \<open>The win check\<close>

text \<open>
  One of the two inner loops of \<open>_check_win_from_move\<close>: \<open>i\<close> runs from its start
  value to \<open>win_length - 1\<close>, the probe is \<open>(row + i * dr, col + i * dc)\<close>, and the
  loop breaks at the first probe that is off the board or not the player's. The second
  loop of the source probes \<open>(row - i * dr, col - i * dc)\<close>, which is this loop with
  the direction negated.
\<close>

function walk :: "env \<Rightarrow> int \<Rightarrow> int \<Rightarrow> int \<Rightarrow> int \<Rightarrow> int \<Rightarrow> int \<Rightarrow> int \<Rightarrow> int" where
  "walk s row col dr dc player i count =
     (if i < win_length s then
        (if 0 \<le> row + i * dr \<and> row + i * dr < int (rows s) \<and>
            0 \<le> col + i * dc \<and> col + i * dc < int (cols s) \<and>
            board s ! nat (row + i * dr) ! nat (col + i * dc) = player
         then walk s row col dr dc player (i + 1) (count + 1)
         else count)
      else count)"
  by pat_completeness auto
termination
  by (relation "measure (\<lambda>(s, row, col, dr, dc, player, i, count). nat (win_length s - i))") auto

declare walk.simps [simp del]

definition directions :: "(int \<times> int) list" where
  "directions = [(0, 1), (1, 0), (1, 1), (1, -1)]"

fun check_dirs :: "env \<Rightarrow> int \<Rightarrow> int \<Rightarrow> int \<Rightarrow> (int \<times> int) list \<Rightarrow> bool" where
  "check_dirs s row col player [] = False"
| "check_dirs s row col player ((dr, dc) # ds) =
     (let count = 1;
          count = walk s row col dr dc player 1 count;
          count = walk s row col (- dr) (- dc) player 1 count
      in if count \<ge> win_length s then True else check_dirs s row col player ds)"

definition check_win_from_move :: "env \<Rightarrow> nat option \<Rightarrow> int \<Rightarrow> int \<Rightarrow> bool" where
  "check_win_from_move s row col player =
     (case row of
        None \<Rightarrow> False
      | Some r \<Rightarrow> check_dirs s (int r) col player directions)"

subsection \<open>The draw check and \<open>step\<close>\<close>

definition is_draw :: "env \<Rightarrow> py_error + bool" where
  "is_draw s =
     (case board s of
        [] \<Rightarrow> Inl IndexError
      | top_row # _ \<Rightarrow> Inr (list_all (\<lambda>x. x \<noteq> 0) top_row))"

definition step :: "env \<Rightarrow> int \<Rightarrow> py_error + (step_result \<times> env)" where
  "step s action_col =
     (case is_valid_action s action_col of
        Inl e \<Rightarrow> Inl e
      | Inr valid \<Rightarrow>
          if \<not> valid then
            Inr (\<lparr>obs = get_observation s, reward = - 10, is_done = True,
                  info = [(''error'', ''Invalid move by player '' @ str_int (current_player s))]\<rparr>, s)
          else
            (let player_who_moved = current_player s in
             case place_piece s (nat action_col) player_who_moved of
               (s1, None) \<Rightarrow>
                 Inr (\<lparr>obs = get_observation s1, reward = - 10, is_done = True,
                       info = [(''error'',
                                 ''Failed to place piece by player '' @ str_int (current_player s1))]\<rparr>, s1)
             | (s1, Some row_placed) \<Rightarrow>
                 if check_win_from_move s1 (Some row_placed) action_col player_who_moved then
                   Inr (\<lparr>obs = get_observation s1, reward = 1, is_done = True, info = []\<rparr>, s1)
                 else
                   (case is_draw s1 of
                      Inl e \<Rightarrow> Inl e
                    | Inr draw \<Rightarrow>
                        if draw then
                          Inr (\<lparr>obs = get_observation s1, reward = 0, is_done = True,
                                info = []\<rparr>, s1)
                        else
                          (let s2 = s1\<lparr>current_player := current_player s1 * (- 1)\<rparr>
                           in Inr (\<lparr>obs = get_observation s2, reward = 0, is_done = False,
                                     info = []\<rparr>, s2)))))"

text \<open>A sequence of \<open>step\<close> calls on the same object; the returned tuples are dropped.\<close>

fun steps :: "env \<Rightarrow> int list \<Rightarrow> py_error + env" where
  "steps s [] = Inr s"
| "steps s (a # as) =
     (case step s a of
        Inl e \<Rightarrow> Inl e
      | Inr (res, s') \<Rightarrow> steps s' as)"

section \<open>Properties of states and boards\<close>

text \<open>
  The data model: the array has shape \<open>(rows, cols)\<close>, every cell is -1, 0 or 1, and
  the player to move is 1 or -1.
\<close>

definition env_ok :: "env \<Rightarrow> bool" where
  "env_ok s \<longleftrightarrow>
     length (board s) = rows s \<and>
     (\<forall>row \<in> set (board s). length row = cols s \<and> (\<forall>x \<in> set row. x \<in> {- 1, 0, 1})) \<and>
     current_player s \<in> {1, - 1}"

text \<open>Gravity: below an occupied cell (at a larger row index) every cell is occupied.\<close>

definition gravity :: "env \<Rightarrow> bool" where
  "gravity s \<longleftrightarrow>
     (\<forall>c \<in> {0..<cols s}. \<forall>r \<in> {0..<rows s}. \<forall>r' \<in> {0..<rows s}.
        board s ! r ! c \<noteq> 0 \<and> r < r' \<longrightarrow> board s ! r' ! c \<noteq> 0)"

text \<open>A legal column: in range, on a board that has a top row, with the top cell empty.\<close>

definition legal_column :: "env \<Rightarrow> int \<Rightarrow> bool" where
  "legal_column s a \<longleftrightarrow> 0 \<le> a \<and> a < int (cols s) \<and> 0 < rows s \<and> board s ! 0 ! nat a = 0"

definition top_full :: "env \<Rightarrow> bool" where
  "top_full s \<longleftrightarrow> (\<forall>c \<in> {0..<cols s}. board s ! 0 ! c \<noteq> 0)"

text \<open>The state after the store \<open>board[r, c] = p\<close>.\<close>

definition put :: "env \<Rightarrow> nat \<Rightarrow> nat \<Rightarrow> int \<Rightarrow> env" where
  "put s r c p = s\<lparr>board := (board s)[r := (board s ! r)[c := p]]\<rparr>"

text \<open>
  \<open>cell_is s r c p\<close>: the position is on the board and holds \<open>p\<close>.
  \<open>line_through s row col d p\<close>: on the axis of direction \<open>d\<close> through \<open>(row, col)\<close>
  there is an unbroken segment of cells holding \<open>p\<close> that contains \<open>(row, col)\<close> and
  has at least \<open>win_length\<close> cells.
  \<open>wins s row col p\<close>: there is such a line on one of the four axes, written out here:
  horizontal \<open>(0, 1)\<close>, vertical \<open>(1, 0)\<close>, diagonal \<open>(1, 1)\<close> and anti-diagonal
  \<open>(1, -1)\<close>, each as (row step, column step).
\<close>

definition cell_is :: "env \<Rightarrow> int \<Rightarrow> int \<Rightarrow> int \<Rightarrow> bool" where
  "cell_is s r c p \<longleftrightarrow>
     0 \<le> r \<and> r < int (rows s) \<and> 0 \<le> c \<and> c < int (cols s) \<and> board s ! nat r ! nat c = p"

definition line_through :: "env \<Rightarrow> int \<Rightarrow> int \<Rightarrow> int \<times> int \<Rightarrow> int \<Rightarrow> bool" where
  "line_through s row col d p \<longleftrightarrow>
     (\<exists>lo hi. lo \<le> 0 \<and> 0 \<le> hi \<and> win_length s \<le> hi - lo + 1 \<and>
        (\<forall>k \<in> {lo..hi}. cell_is s (row + k * fst d) (col + k * snd d) p))"

definition wins :: "env \<Rightarrow> nat \<Rightarrow> int \<Rightarrow> int \<Rightarrow> bool" where
  "wins s row col p \<longleftrightarrow>
     (\<exists>d \<in> {(0, 1), (1, 0), (1, 1), (1, - 1)}. line_through s (int row) col d p)"

subsection \<open>Example positions on the default board\<close>

text \<open>
  \<open>three_in_row\<close> is the position after the columns 0, 0, 1, 1, 2, 2 from the start;
  \<open>four_in_row\<close> is the board after player 1 adds column 3. In \<open>three_in_column\<close>,
  \<open>diagonal_three\<close> and \<open>antidiagonal_three\<close> player 1 is one piece short of a
  vertical line in column 0, of the diagonal from (2, 0) to (5, 3) and of the
  anti-diagonal from (2, 6) to (5, 3). In \<open>column_full\<close> column 0
  has been played six times. \<open>last_cell_open\<close> has 41 pieces and no line of four;
  \<open>board_full\<close> is that board after player -1 takes the last cell.
\<close>

definition three_in_row :: env where
  "three_in_row = \<lparr>rows = 6, cols = 7, win_length = 4, board =
     [[0, 0, 0, 0, 0, 0, 0],
      [0, 0, 0, 0, 0, 0, 0],
      [0, 0, 0, 0, 0, 0, 0],
      [0, 0, 0, 0, 0, 0, 0],
      [- 1, - 1, - 1, 0, 0, 0, 0],
      [1, 1, 1, 0, 0, 0, 0]], current_player = 1\<rparr>"

definition four_in_row :: env where
  "four_in_row = \<lparr>rows = 6, cols = 7, win_length = 4, board =
     [[0, 0, 0, 0, 0, 0, 0],
      [0, 0, 0, 0, 0, 0, 0],
      [0, 0, 0, 0, 0, 0, 0],
      [0, 0, 0, 0, 0, 0, 0],
      [- 1, - 1, - 1, 0, 0, 0, 0],
      [1, 1, 1, 1, 0, 0, 0]], current_player = 1\<rparr>"

definition three_in_column :: env where
  "three_in_column = \<lparr>rows = 6, cols = 7, win_length = 4, board =
     [[0, 0, 0, 0, 0, 0, 0],
      [0, 0, 0, 0, 0, 0, 0],
      [0, 0, 0, 0, 0, 0, 0],
      [1, - 1, 0, 0, 0, 0, 0],
      [1, - 1, 0, 0, 0, 0, 0],
      [1, - 1, 0, 0, 0, 0, 0]], current_player = 1\<rparr>"

definition diagonal_three :: env where
  "diagonal_three = \<lparr>rows = 6, cols = 7, win_length = 4, board =
     [[0, 0, 0, 0, 0, 0, 0],
      [0, 0, 0, 0, 0, 0, 0],
      [0, 0, 0, 0, 0, 0, 0],
      [- 1, 1, 0, 0, 0, 0, 0],
      [1, - 1, 1, 0, 0, 0, 0],
      [- 1, - 1, 1, 1, 0, 0, - 1]], current_player = 1\<rparr>"

definition antidiagonal_three :: env where
  "antidiagonal_three = \<lparr>rows = 6, cols = 7, win_length = 4, board =
     [[0, 0, 0, 0, 0, 0, 0],
      [0, 0, 0, 0, 0, 0, 0],
      [0, 0, 0, 0, 0, 0, 0],
      [0, 0, 0, 0, 0, 1, - 1],
      [0, 0, 0, 0, 1, - 1, 1],
      [- 1, 0, 0, 1, 1, - 1, - 1]], current_player = 1\<rparr>"

definition column_full :: env where
  "column_full = \<lparr>rows = 6, cols = 7, win_length = 4, board =
     [[- 1, 0, 0, 0, 0, 0, 0],
      [1, 0, 0, 0, 0, 0, 0],
      [- 1, 0, 0, 0, 0, 0, 0],
      [1, 0, 0, 0, 0, 0, 0],
      [- 1, 0, 0, 0, 0, 0, 0],
      [1, 0, 0, 0, 0, 0, 0]], current_player = 1\<rparr>"

definition last_cell_open :: env where
  "last_cell_open = \<lparr>rows = 6, cols = 7, win_length = 4, board =
     [[1, 1, - 1, - 1, 1, 1, 0],
      [- 1, - 1, 1, 1, - 1, - 1, 1],
      [1, 1, - 1, - 1, 1, 1, - 1],
      [- 1, - 1, 1, 1, - 1, - 1, 1],
      [1, 1, - 1, - 1, 1, 1, - 1],
      [- 1, - 1, 1, 1, - 1, - 1, 1]], current_player = - 1\<rparr>"

definition board_full :: env where
  "board_full = \<lparr>rows = 6, cols = 7, win_length = 4, board =
     [[1, 1, - 1, - 1, 1, 1, - 1],
      [- 1, - 1, 1, 1, - 1, - 1, 1],
      [1, 1, - 1, - 1, 1, 1, - 1],
      [- 1, - 1, 1, 1, - 1, - 1, 1],
      [1, 1, - 1, - 1, 1, 1, - 1],
      [- 1, - 1, 1, 1, - 1, - 1, 1]], current_player = - 1\<rparr>"

section \<open>Placement and the shape of the board\<close>

lemma place_loop_some:
  "\<exists>r<k. b ! r ! col = 0 \<Longrightarrow>
   \<exists>row<k. place_loop b k col p = (b[row := (b ! row)[col := p]], Some row) \<and>
            b ! row ! col = 0 \<and> (\<forall>r. row < r \<and> r < k \<longrightarrow> b ! r ! col \<noteq> 0)"
proof (induction k)
  case 0
  then show ?case by simp
next
  case (Suc k)
  show ?case
  proof (cases "b ! k ! col = 0")
    case True
    then show ?thesis by (intro exI [of _ k]) auto
  next
    case False
    with Suc.prems have "\<exists>r<k. b ! r ! col = 0"
      by (metis less_Suc_eq)
    from Suc.IH [OF this] obtain row where row: "row < k"
      "place_loop b k col p = (b[row := (b ! row)[col := p]], Some row)"
      "b ! row ! col = 0" "\<forall>r. row < r \<and> r < k \<longrightarrow> b ! r ! col \<noteq> 0"
      by blast
    have "\<forall>r. row < r \<and> r < Suc k \<longrightarrow> b ! r ! col \<noteq> 0"
      using row(4) False by (auto simp: less_Suc_eq)
    with row False show ?thesis
      by (intro exI [of _ row]) simp
  qed
qed

lemma place_loop_none:
  "\<forall>r<k. b ! r ! col \<noteq> 0 \<Longrightarrow> place_loop b k col p = (b, None)"
  by (induction k) auto

lemma env_ok_row_length: "env_ok s \<Longrightarrow> r < rows s \<Longrightarrow> length (board s ! r) = cols s"
  by (simp add: env_ok_def)

lemma env_ok_cell:
  assumes "env_ok s" "r < rows s" "c < cols s"
  shows "board s ! r ! c \<in> {- 1, 0, 1}"
proof -
  have r: "board s ! r \<in> set (board s)" using assms by (simp add: env_ok_def)
  then have "length (board s ! r) = cols s" using assms(1) by (simp add: env_ok_def)
  then have "board s ! r ! c \<in> set (board s ! r)" using assms(3) by simp
  then show ?thesis using assms(1) r unfolding env_ok_def by blast
qed

lemma board_get_top:
  "env_ok s \<Longrightarrow> 0 < rows s \<Longrightarrow> c < cols s \<Longrightarrow> board_get (board s) 0 c = Inr (board s ! 0 ! c)"
  by (simp add: board_get_def env_ok_def)

lemma is_valid_action_legal: "env_ok s \<Longrightarrow> legal_column s a \<Longrightarrow> is_valid_action s a = Inr True"
  by (simp add: is_valid_action_def legal_column_def board_get_top nat_less_iff)

lemma is_valid_action_illegal:
  "env_ok s \<Longrightarrow> a < 0 \<or> int (cols s) \<le> a \<or> (0 < rows s \<and> board s ! 0 ! nat a \<noteq> 0) \<Longrightarrow>
   is_valid_action s a = Inr False"
  by (auto simp: is_valid_action_def board_get_top nat_less_iff)

lemma place_piece_legal:
  assumes ok: "env_ok s" and legal: "legal_column s a"
  shows "\<exists>row<rows s. place_piece s (nat a) p = (put s row (nat a) p, Some row) \<and>
           board s ! row ! nat a = 0 \<and> (\<forall>r. row < r \<and> r < rows s \<longrightarrow> board s ! r ! nat a \<noteq> 0)"
proof -
  have "\<exists>r<rows s. board s ! r ! nat a = 0"
    using legal by (auto simp: legal_column_def)
  from place_loop_some [OF this, of p] show ?thesis
    by (auto simp: place_piece_def put_def)
qed

lemma put_nth:
  assumes "env_ok s" "row < rows s" "col < cols s" "r < rows s" "c < cols s"
  shows "board (put s row col p) ! r ! c = (if r = row \<and> c = col then p else board s ! r ! c)"
  using assms by (auto simp: put_def env_ok_def nth_list_update)

lemma put_fields [simp]:
  "rows (put s r c p) = rows s" "cols (put s r c p) = cols s"
  "win_length (put s r c p) = win_length s" "current_player (put s r c p) = current_player s"
  by (simp_all add: put_def)

lemma put_env_ok:
  assumes ok: "env_ok s" and p: "p \<in> {1, - 1}"
  shows "env_ok (put s row col p)"
proof (cases "row < length (board s)")
  case False
  then have "(board s)[row := (board s ! row)[col := p]] = board s"
    by (simp add: list_update_beyond)
  then have "put s row col p = s" by (simp add: put_def)
  then show ?thesis using ok by simp
next
  case True
  let ?new = "(board s ! row)[col := p]"
  have old: "board s ! row \<in> set (board s)" using True by simp
  have len: "length ?new = cols s" using ok old by (simp add: env_ok_def)
  have "set ?new \<subseteq> insert p (set (board s ! row))" by (rule set_update_subset_insert)
  moreover have "\<forall>x \<in> set (board s ! row). x \<in> {- 1, 0, 1}"
    using ok old unfolding env_ok_def by blast
  ultimately have vals: "\<forall>x \<in> set ?new. x \<in> {- 1, 0, 1}" using p by blast
  have "\<forall>xs \<in> set ((board s)[row := ?new]).
          length xs = cols s \<and> (\<forall>x \<in> set xs. x \<in> {- 1, 0, 1})"
  proof
    fix xs assume "xs \<in> set ((board s)[row := ?new])"
    then have "xs \<in> insert ?new (set (board s))"
      using set_update_subset_insert [of "board s" row ?new] by blast
    then show "length xs = cols s \<and> (\<forall>x \<in> set xs. x \<in> {- 1, 0, 1})"
      using len vals ok unfolding env_ok_def by blast
  qed
  moreover have "length ((board s)[row := ?new]) = rows s" "current_player s \<in> {1, - 1}"
    using ok by (simp_all add: env_ok_def)
  ultimately show ?thesis unfolding env_ok_def put_def by simp
qed

lemma gravityD:
  "gravity s \<Longrightarrow> c < cols s \<Longrightarrow> r < rows s \<Longrightarrow> r' < rows s \<Longrightarrow>
   board s ! r ! c \<noteq> 0 \<Longrightarrow> r < r' \<Longrightarrow> board s ! r' ! c \<noteq> 0"
  unfolding gravity_def by (metis atLeastLessThan_iff le0)

lemma put_gravity:
  assumes ok: "env_ok s" and g: "gravity s" and row: "row < rows s" and col: "col < cols s"
    and below: "\<forall>r. row < r \<and> r < rows s \<longrightarrow> board s ! r ! col \<noteq> 0" and p: "p \<noteq> 0"
  shows "gravity (put s row col p)"
  unfolding gravity_def
proof (intro ballI impI)
  fix c r r'
  assume c: "c \<in> {0..<cols (put s row col p)}" and r: "r \<in> {0..<rows (put s row col p)}"
    and r': "r' \<in> {0..<rows (put s row col p)}"
    and h: "board (put s row col p) ! r ! c \<noteq> 0 \<and> r < r'"
  have c': "c < cols s" and rr: "r < rows s" and rr': "r' < rows s" using c r r' by simp_all
  have n1: "board (put s row col p) ! r ! c = (if r = row \<and> c = col then p else board s ! r ! c)"
    by (rule put_nth [OF ok row col rr c'])
  have n2: "board (put s row col p) ! r' ! c = (if r' = row \<and> c = col then p else board s ! r' ! c)"
    by (rule put_nth [OF ok row col rr' c'])
  show "board (put s row col p) ! r' ! c \<noteq> 0"
  proof (cases "c = col")
    case True
    show ?thesis
    proof (cases "r' = row")
      case True
      then show ?thesis using n2 p \<open>c = col\<close> by simp
    next
      case False
      show ?thesis
      proof (cases "r = row")
        case True
        then have "row < r'" using h by simp
        then show ?thesis using below rr' n2 False \<open>c = col\<close> by simp
      next
        case False
        then have "board s ! r ! c \<noteq> 0" using n1 h by simp
        then have "board s ! r' ! c \<noteq> 0"
          using gravityD [OF g c' rr rr'] h by blast
        then show ?thesis using n2 \<open>r' \<noteq> row\<close> by simp
      qed
    qed
  next
    case False
    then have "board s ! r ! c \<noteq> 0" using n1 h by simp
    then have "board s ! r' ! c \<noteq> 0"
      using gravityD [OF g c' rr rr'] h by blast
    then show ?thesis using n2 False by simp
  qed
qed

lemma is_draw_ok: "env_ok s \<Longrightarrow> 0 < rows s \<Longrightarrow> is_draw s = Inr (top_full s)"
  by (cases "board s") (auto simp: is_draw_def top_full_def env_ok_def list_all_length)

section \<open>The win check counts lines through the placed cell\<close>

lemma walk_spec:
  "\<exists>m\<ge>0. walk s row col dr dc p i count = count + m \<and>
     (\<forall>k. i \<le> k \<and> k < i + m \<longrightarrow> cell_is s (row + k * dr) (col + k * dc) p) \<and>
     (win_length s \<le> i + m \<or> \<not> cell_is s (row + (i + m) * dr) (col + (i + m) * dc) p)"
proof (induction s row col dr dc p i count rule: walk.induct)
  case (1 s row col dr dc p i count)
  show ?case
  proof (cases "i < win_length s \<and> cell_is s (row + i * dr) (col + i * dc) p")
    case True
    then have c: "0 \<le> row + i * dr \<and> row + i * dr < int (rows s) \<and>
            0 \<le> col + i * dc \<and> col + i * dc < int (cols s) \<and>
            board s ! nat (row + i * dr) ! nat (col + i * dc) = p"
      by (simp add: cell_is_def)
    from "1.IH" True c obtain m where m: "0 \<le> m"
      "walk s row col dr dc p (i + 1) (count + 1) = count + 1 + m"
      "\<forall>k. i + 1 \<le> k \<and> k < i + 1 + m \<longrightarrow> cell_is s (row + k * dr) (col + k * dc) p"
      "win_length s \<le> i + 1 + m \<or> \<not> cell_is s (row + (i + 1 + m) * dr) (col + (i + 1 + m) * dc) p"
      by blast
    have w: "walk s row col dr dc p i count = count + (m + 1)"
      using True c m(2) by (subst walk.simps) simp
    have a: "\<forall>k. i \<le> k \<and> k < i + (m + 1) \<longrightarrow> cell_is s (row + k * dr) (col + k * dc) p"
    proof (intro allI impI)
      fix k assume k: "i \<le> k \<and> k < i + (m + 1)"
      show "cell_is s (row + k * dr) (col + k * dc) p"
      proof (cases "k = i")
        case True
        then show ?thesis using \<open>i < win_length s \<and> cell_is s (row + i * dr) (col + i * dc) p\<close> by simp
      next
        case False
        then have "i + 1 \<le> k \<and> k < i + 1 + m" using k by simp
        then show ?thesis using m(3) by blast
      qed
    qed
    have e: "win_length s \<le> i + (m + 1) \<or> \<not> cell_is s (row + (i + (m + 1)) * dr) (col + (i + (m + 1)) * dc) p"
    proof -
      have eq: "i + (m + 1) = i + 1 + m" by simp
      show ?thesis unfolding eq using m(4) .
    qed
    from m(1) w a e show ?thesis
      by (intro exI [of _ "m + 1"]) simp
  next
    case False
    then have "walk s row col dr dc p i count = count"
      by (subst walk.simps) (auto simp: cell_is_def)
    with False show ?thesis
      by (intro exI [of _ 0]) auto
  qed
qed

lemma axis_count_iff:
  assumes here: "cell_is s row col p"
  shows "win_length s \<le> walk s row col (- dr) (- dc) p 1 (walk s row col dr dc p 1 1)
         \<longleftrightarrow> line_through s row col (dr, dc) p"
proof -
  obtain mp where mp: "0 \<le> mp" "walk s row col dr dc p 1 1 = 1 + mp"
    "\<forall>k. 1 \<le> k \<and> k < 1 + mp \<longrightarrow> cell_is s (row + k * dr) (col + k * dc) p"
    "win_length s \<le> 1 + mp \<or> \<not> cell_is s (row + (1 + mp) * dr) (col + (1 + mp) * dc) p"
    using walk_spec [of s row col dr dc p 1 1] by blast
  obtain mn where mn: "0 \<le> mn" "walk s row col (- dr) (- dc) p 1 (1 + mp) = 1 + mp + mn"
    "\<forall>k. 1 \<le> k \<and> k < 1 + mn \<longrightarrow> cell_is s (row + k * (- dr)) (col + k * (- dc)) p"
    "win_length s \<le> 1 + mn \<or> \<not> cell_is s (row + (1 + mn) * (- dr)) (col + (1 + mn) * (- dc)) p"
    using walk_spec [of s row col "- dr" "- dc" p 1 "1 + mp"] by blast
  have cnt: "walk s row col (- dr) (- dc) p 1 (walk s row col dr dc p 1 1) = 1 + mp + mn"
    using mp(2) mn(2) by simp
  show ?thesis
  proof
    assume "win_length s \<le> walk s row col (- dr) (- dc) p 1 (walk s row col dr dc p 1 1)"
    then have len: "win_length s \<le> mp - (- mn) + 1" using cnt by simp
    have all: "\<forall>k \<in> {- mn..mp}. cell_is s (row + k * dr) (col + k * dc) p"
    proof
      fix k assume k: "k \<in> {- mn..mp}"
      consider "k = 0" | "1 \<le> k" | "k \<le> - 1" by linarith
      then show "cell_is s (row + k * dr) (col + k * dc) p"
      proof cases
        case 1
        then show ?thesis using here by simp
      next
        case 2
        then show ?thesis using k mp(3) by simp
      next
        case 3
        then have "1 \<le> - k \<and> - k < 1 + mn" using k by simp
        then have "cell_is s (row + (- k) * (- dr)) (col + (- k) * (- dc)) p"
          using mn(3) by blast
        then show ?thesis by simp
      qed
    qed
    show "line_through s row col (dr, dc) p"
      unfolding line_through_def using mp(1) mn(1) len all
      by (intro exI [of _ "- mn"] exI [of _ mp]) simp
  next
    assume "line_through s row col (dr, dc) p"
    then obtain lo hi where lh: "lo \<le> 0" "0 \<le> hi" "win_length s \<le> hi - lo + 1"
      "\<forall>k \<in> {lo..hi}. cell_is s (row + k * dr) (col + k * dc) p"
      unfolding line_through_def by auto
    have up: "win_length s \<le> 1 + mp \<or> hi \<le> mp"
    proof (rule disjCI)
      assume "\<not> hi \<le> mp"
      then have "1 + mp \<in> {lo..hi}" using lh(1) mp(1) by simp
      then have "cell_is s (row + (1 + mp) * dr) (col + (1 + mp) * dc) p" using lh(4) by blast
      then show "win_length s \<le> 1 + mp" using mp(4) by blast
    qed
    have down: "win_length s \<le> 1 + mn \<or> - lo \<le> mn"
    proof (rule disjCI)
      assume "\<not> - lo \<le> mn"
      then have "- (1 + mn) \<in> {lo..hi}" using lh(2) mn(1) by simp
      then have "cell_is s (row + (- (1 + mn)) * dr) (col + (- (1 + mn)) * dc) p"
        using lh(4) by blast
      moreover have "(- (1 + mn)) * dr = (1 + mn) * (- dr)" "(- (1 + mn)) * dc = (1 + mn) * (- dc)"
        by (simp_all add: algebra_simps)
      ultimately have "cell_is s (row + (1 + mn) * (- dr)) (col + (1 + mn) * (- dc)) p"
        by (simp only:)
      then show "win_length s \<le> 1 + mn" using mn(4) by blast
    qed
    have "win_length s \<le> 1 + mp + mn" using up down lh(3) mp(1) mn(1) by linarith
    then show "win_length s \<le> walk s row col (- dr) (- dc) p 1 (walk s row col dr dc p 1 1)"
      using cnt by simp
  qed
qed

lemma check_dirs_iff:
  assumes here: "cell_is s row col p"
  shows "check_dirs s row col p ds \<longleftrightarrow> (\<exists>d \<in> set ds. line_through s row col d p)"
proof (induction ds)
  case Nil
  then show ?case by simp
next
  case (Cons d ds)
  obtain dr dc where d: "d = (dr, dc)" by (cases d)
  show ?case
    using Cons axis_count_iff [OF here, of dr dc] by (simp add: d Let_def)
qed

section \<open>The outcomes of \<open>step\<close>\<close>

lemma check_win_iff:
  assumes "cell_is s (int row) col p"
  shows "check_win_from_move s (Some row) col p \<longleftrightarrow> wins s row col p"
  using check_dirs_iff [OF assms, of directions]
  by (simp add: check_win_from_move_def wins_def directions_def)

lemma put_cell_is:
  assumes "env_ok s" "row < rows s" "0 \<le> a" "a < int (cols s)"
  shows "cell_is (put s row (nat a) p) (int row) a p"
  using assms put_nth [of s row "nat a" row "nat a" p] by (simp add: cell_is_def nat_less_iff)

text \<open>The three outcomes of a legal step, in terms of the board after the store.\<close>

lemma step_legal:
  assumes ok: "env_ok s" and legal: "legal_column s a"
    and pp: "place_piece s (nat a) (current_player s) = (s1, Some row)"
  shows "step s a =
     (if wins s1 row a (current_player s)
      then Inr (\<lparr>obs = get_observation s1, reward = 1, is_done = True, info = []\<rparr>, s1)
      else if top_full s1
      then Inr (\<lparr>obs = get_observation s1, reward = 0, is_done = True, info = []\<rparr>, s1)
      else Inr (\<lparr>obs = get_observation (s1\<lparr>current_player := - current_player s\<rparr>), reward = 0,
                 is_done = False, info = []\<rparr>, s1\<lparr>current_player := - current_player s\<rparr>))"
proof -
  from place_piece_legal [OF ok legal, of "current_player s"] pp
  have row: "row < rows s" and s1: "s1 = put s row (nat a) (current_player s)"
    by auto
  have cp: "current_player s \<in> {1, - 1}" using ok by (simp add: env_ok_def)
  have ok1: "env_ok s1" unfolding s1 by (rule put_env_ok [OF ok cp])
  have here: "cell_is s1 (int row) a (current_player s)"
    unfolding s1 using legal by (intro put_cell_is [OF ok row]) (simp_all add: legal_column_def)
  have win: "check_win_from_move s1 (Some row) a (current_player s) = wins s1 row a (current_player s)"
    by (rule check_win_iff [OF here])
  have draw: "is_draw s1 = Inr (top_full s1)"
    using legal by (intro is_draw_ok [OF ok1]) (simp add: s1 legal_column_def)
  have cp1: "current_player s1 = current_player s" by (simp add: s1)
  show ?thesis
    unfolding step_def is_valid_action_legal [OF ok legal]
    by (simp add: pp win draw cp1 Let_def)
qed

lemma step_illegal:
  assumes ok: "env_ok s"
    and bad: "a < 0 \<or> int (cols s) \<le> a \<or> (0 < rows s \<and> board s ! 0 ! nat a \<noteq> 0)"
  shows "step s a =
     Inr (\<lparr>obs = get_observation s, reward = - 10, is_done = True,
           info = [(''error'', ''Invalid move by player '' @ str_int (current_player s))]\<rparr>, s)"
  unfolding step_def is_valid_action_illegal [OF ok bad] by simp

lemma str_int_players: "str_int 1 = ''1''" "str_int (- 1) = ''-1''"
  by (simp_all add: str_int_def str_nat.simps digit_char_def)

lemma step_no_rows:
  assumes "env_ok s" "0 \<le> a" "a < int (cols s)" "rows s = 0"
  shows "step s a = Inl IndexError"
  using assms by (simp add: step_def is_valid_action_def board_get_def env_ok_def)

lemma column_cases:
  obtains (illegal) "a < 0 \<or> int (cols s) \<le> a \<or> (0 < rows s \<and> board s ! 0 ! nat a \<noteq> 0)"
  | (legal) "legal_column s a"
  | (no_rows) "0 \<le> a" "a < int (cols s)" "rows s = 0"
  unfolding legal_column_def by fastforce

lemma get_observation_nth:
  assumes "env_ok s" "r < rows s" "c < cols s"
  shows "get_observation s ! r ! c = board s ! r ! c * current_player s"
  using assms env_ok_row_length [of s r] by (simp add: get_observation_def env_ok_def)

lemma observation_values:
  assumes "env_ok s" "r < rows s" "c < cols s"
  shows "get_observation s ! r ! c \<in> {- 1, 0, 1}"
proof -
  have "board s ! r ! c \<in> {- 1, 0, 1}" by (rule env_ok_cell [OF assms])
  moreover have "current_player s \<in> {1, - 1}" using assms(1) by (simp add: env_ok_def)
  ultimately show ?thesis unfolding get_observation_nth [OF assms] by auto
qed

lemma env_ok_player: "env_ok s \<Longrightarrow> p \<in> {1, - 1} \<Longrightarrow> env_ok (s\<lparr>current_player := p\<rparr>)"
  by (simp add: env_ok_def)

lemma gravity_player: "gravity (s\<lparr>current_player := p\<rparr>) = gravity s"
  by (simp add: gravity_def)

lemma step_legal_cases:
  assumes ok: "env_ok s" and legal: "legal_column s a"
  obtains row res s' where "row < rows s" "board s ! row ! nat a = 0"
    "\<forall>r. row < r \<and> r < rows s \<longrightarrow> board s ! r ! nat a \<noteq> 0"
    "place_piece s (nat a) (current_player s) = (put s row (nat a) (current_player s), Some row)"
    "step s a = Inr (res, s')"
    "s' = put s row (nat a) (current_player s) \<or>
     s' = (put s row (nat a) (current_player s))\<lparr>current_player := - current_player s\<rparr>"
proof -
  from place_piece_legal [OF ok legal, of "current_player s"] obtain row where
    row: "row < rows s" "board s ! row ! nat a = 0"
      "\<forall>r. row < r \<and> r < rows s \<longrightarrow> board s ! r ! nat a \<noteq> 0"
    and pp: "place_piece s (nat a) (current_player s) = (put s row (nat a) (current_player s), Some row)"
    by blast
  from step_legal [OF ok legal pp] obtain res s' where
    "step s a = Inr (res, s')"
    "s' = put s row (nat a) (current_player s) \<or>
     s' = (put s row (nat a) (current_player s))\<lparr>current_player := - current_player s\<rparr>"
    by (auto split: if_splits)
  with row pp show ?thesis by (rule that)
qed

lemma legal_in_range: "legal_column s a \<Longrightarrow> nat a < cols s"
  by (simp add: legal_column_def nat_less_iff)

section \<open>The valid actions\<close>

lemma valid_from_filter:
  assumes ok: "env_ok s" and rows: "0 < rows s"
  shows "set cs \<subseteq> {0..<cols s} \<Longrightarrow>
         valid_from s cs = Inr (filter (\<lambda>c. board s ! 0 ! c = 0) cs)"
proof (induction cs)
  case Nil
  then show ?case by simp
next
  case (Cons c cs)
  then have c: "c < cols s" and cs: "set cs \<subseteq> {0..<cols s}" by simp_all
  show ?case
    using Cons.IH [OF cs] board_get_top [OF ok rows c] by simp
qed

lemma valid_from_board:
  "board s2 = board s \<Longrightarrow> valid_from s2 cs = valid_from s cs"
  by (induction cs) (simp_all cong: sum.case_cong)

section \<open>Invariants of \<open>reset\<close> and \<open>step\<close>\<close>

lemma zeros_nth: "r < n \<Longrightarrow> c < m \<Longrightarrow> zeros n m ! r ! c = 0"
  by (simp add: zeros_def)

lemma reset_env_ok: "env_ok (snd (reset s))"
  by (simp add: reset_def Let_def env_ok_def zeros_def)

lemma reset_gravity: "gravity (snd (reset s))"
  by (simp add: reset_def Let_def gravity_def zeros_nth)

lemma reset_fields [simp]:
  "rows (snd (reset s)) = rows s" "cols (snd (reset s)) = cols s"
  "fst (reset s) = get_observation (snd (reset s))"
  by (simp_all add: reset_def Let_def)

lemma reset_valid_actions:
  assumes "0 < rows s"
  shows "get_valid_actions (snd (reset s)) = Inr [0..<cols s]"
proof -
  have r: "0 < rows (snd (reset s))" using assms by simp
  have "filter (\<lambda>c. board (snd (reset s)) ! 0 ! c = 0) [0..<cols s] = [0..<cols s]"
  proof (rule filter_True)
    show "\<forall>c \<in> set [0..<cols s]. board (snd (reset s)) ! 0 ! c = 0"
      using assms by (simp add: reset_def Let_def zeros_nth)
  qed
  then show ?thesis
    using valid_from_filter [OF reset_env_ok r, of "[0..<cols s]"]
    by (simp add: get_valid_actions_def)
qed

text \<open>What every returning \<open>step\<close> keeps.\<close>

lemma step_invariant:
  assumes ok: "env_ok s" and st: "step s a = Inr (res, s')"
  shows "env_ok s' \<and> obs res = get_observation s' \<and> rows s' = rows s \<and> cols s' = cols s \<and>
         (gravity s \<longrightarrow> gravity s')"
proof (cases s a rule: column_cases)
  case illegal
  then show ?thesis using step_illegal [OF ok illegal] st ok by auto
next
  case no_rows
  then show ?thesis using step_no_rows [OF ok] st by simp
next
  case legal
  from place_piece_legal [OF ok legal, of "current_player s"] obtain row where
    row: "row < rows s"
    and below: "\<forall>r. row < r \<and> r < rows s \<longrightarrow> board s ! r ! nat a \<noteq> 0"
    and pp: "place_piece s (nat a) (current_player s) = (put s row (nat a) (current_player s), Some row)"
    by blast
  let ?s1 = "put s row (nat a) (current_player s)"
  have cp: "current_player s \<in> {1, - 1}" using ok by (simp add: env_ok_def)
  then have nz: "current_player s \<noteq> 0" by auto
  have col: "nat a < cols s" by (rule legal_in_range [OF legal])
  have ok1: "env_ok ?s1" by (rule put_env_ok [OF ok cp])
  have g1: "gravity s \<Longrightarrow> gravity ?s1"
    by (rule put_gravity [OF ok _ row col below nz])
  have ok2: "env_ok (?s1\<lparr>current_player := - current_player s\<rparr>)"
    using cp by (intro env_ok_player [OF ok1]) auto
  from step_legal [OF ok legal pp] st
  consider "s' = ?s1" "obs res = get_observation ?s1"
    | "s' = ?s1\<lparr>current_player := - current_player s\<rparr>"
      "obs res = get_observation (?s1\<lparr>current_player := - current_player s\<rparr>)"
    by (auto split: if_splits)
  then show ?thesis
  proof cases
    case 1
    then show ?thesis using ok1 g1 by simp
  next
    case 2
    then show ?thesis using ok2 g1 by (simp add: gravity_player)
  qed
qed

lemma steps_invariant:
  "env_ok s \<Longrightarrow> gravity s \<Longrightarrow> steps s as = Inr s' \<Longrightarrow> env_ok s' \<and> gravity s'"
proof (induction as arbitrary: s)
  case Nil
  then show ?case by simp
next
  case (Cons a as)
  from Cons.prems(3) obtain res s1 where st: "step s a = Inr (res, s1)" and rest: "steps s1 as = Inr s'"
    by (auto split: sum.splits)
  from step_invariant [OF Cons.prems(1) st] Cons.prems(2) have "env_ok s1" "gravity s1" by simp_all
  then show ?case using Cons.IH rest by blast
qed

lemma top_full_illegal:
  assumes ok: "env_ok s" and rows: "0 < rows s" and full: "top_full s"
  shows "b < 0 \<or> int (cols s) \<le> b \<or> (0 < rows s \<and> board s ! 0 ! nat b \<noteq> 0)"
proof (cases "0 \<le> b \<and> b < int (cols s)")
  case True
  then have "nat b \<in> {0..<cols s}" by (simp add: nat_less_iff)
  then have "board s ! 0 ! nat b \<noteq> 0" using full unfolding top_full_def by blast
  then show ?thesis using rows by simp
next
  case False
  then show ?thesis by auto
qed

lemma steps_all_illegal:
  assumes ok: "env_ok s" and rows: "0 < rows s" and full: "top_full s"
  shows "steps s bs = Inr s"
proof (induction bs)
  case Nil
  then show ?case by simp
next
  case (Cons b bs)
  then show ?case
    using step_illegal [OF ok top_full_illegal [OF ok rows full, of b]] by simp
qed

lemma draw_return_state:
  assumes ok: "env_ok s" and st: "step s a = Inr (res, s')"
    and d: "is_done res" and r: "reward res = 0"
  shows "env_ok s' \<and> 0 < rows s' \<and> top_full s'"
proof (cases s a rule: column_cases)
  case illegal
  then show ?thesis using step_illegal [OF ok illegal] st r by auto
next
  case no_rows
  then show ?thesis using step_no_rows [OF ok] st by simp
next
  case legal
  from place_piece_legal [OF ok legal, of "current_player s"] obtain row where
    pp: "place_piece s (nat a) (current_player s) = (put s row (nat a) (current_player s), Some row)"
    by blast
  let ?s1 = "put s row (nat a) (current_player s)"
  have rows: "0 < rows s" using legal by (simp add: legal_column_def)
  from step_legal [OF ok legal pp] st d r have "s' = ?s1 \<and> top_full ?s1"
    by (auto split: if_splits)
  then show ?thesis using step_invariant [OF ok st] rows by simp
qed

section \<open>The claims\<close>

text \<open>
  Claim C1. On a legal column, \<open>step\<close> stores the mover's piece and runs the win check on
  the cell just stored. The check answers yes exactly when one of the four axes through
  that cell (horizontal, vertical, diagonal, anti-diagonal, as listed in \<open>wins\<close>) holds
  an unbroken segment of the mover's cells that contains the cell and is at least
  \<open>win_length\<close> long. On a win \<open>step\<close> returns reward 1 and done, and the
  state it leaves is the board after the store with \<open>current_player\<close> unchanged;
  without a win the reward is 0, so a line fires at the placement that completes it and
  not before.
\<close>

theorem win_iff_line_through_placed_cell:
  assumes ok: "env_ok s" and legal: "legal_column s a"
  shows "\<exists>s1 row res s'. place_piece s (nat a) (current_player s) = (s1, Some row) \<and>
           cell_is s1 (int row) a (current_player s) \<and>
           (check_win_from_move s1 (Some row) a (current_player s)
              \<longleftrightarrow> wins s1 row a (current_player s)) \<and>
           step s a = Inr (res, s') \<and>
           (wins s1 row a (current_player s) \<longrightarrow>
              reward res = 1 \<and> is_done res \<and> s' = s1 \<and> current_player s' = current_player s) \<and>
           (\<not> wins s1 row a (current_player s) \<longrightarrow> reward res = 0)"
proof -
  from place_piece_legal [OF ok legal, of "current_player s"] obtain row where
    row: "row < rows s"
    and pp: "place_piece s (nat a) (current_player s) = (put s row (nat a) (current_player s), Some row)"
    by blast
  let ?s1 = "put s row (nat a) (current_player s)"
  have here: "cell_is ?s1 (int row) a (current_player s)"
    using legal by (intro put_cell_is [OF ok row]) (simp_all add: legal_column_def)
  note st = step_legal [OF ok legal pp]
  show ?thesis
  proof (cases "wins ?s1 row a (current_player s)")
    case True
    with st pp here check_win_iff [OF here] show ?thesis by simp
  next
    case False
    with st pp here check_win_iff [OF here] show ?thesis by (cases "top_full ?s1") simp_all
  qed
qed

theorem win_iff_line_through_placed_cell_witness:
  "(env_ok three_in_row \<and> legal_column three_in_row 3 \<and>
    place_piece three_in_row (nat 3) (current_player three_in_row) = (four_in_row, Some 5) \<and>
    wins four_in_row 5 3 1 \<and>
    step three_in_row 3 =
      Inr (\<lparr>obs = board four_in_row, reward = 1, is_done = True, info = []\<rparr>, four_in_row)) \<and>
   (env_ok three_in_column \<and> legal_column three_in_column 0 \<and>
    wins (fst (place_piece three_in_column (nat 0) 1)) 2 0 1 \<and>
    reward (fst (projr (step three_in_column 0))) = 1 \<and>
    is_done (fst (projr (step three_in_column 0)))) \<and>
   (env_ok diagonal_three \<and> legal_column diagonal_three 0 \<and>
    wins (fst (place_piece diagonal_three (nat 0) 1)) 2 0 1 \<and>
    reward (fst (projr (step diagonal_three 0))) = 1 \<and>
    is_done (fst (projr (step diagonal_three 0)))) \<and>
   (env_ok antidiagonal_three \<and> legal_column antidiagonal_three 6 \<and>
    wins (fst (place_piece antidiagonal_three (nat 6) 1)) 2 6 1 \<and>
    reward (fst (projr (step antidiagonal_three 6))) = 1 \<and>
    is_done (fst (projr (step antidiagonal_three 6))))"
proof -
  have ok: "env_ok three_in_row" by code_simp
  have legal: "legal_column three_in_row 3" by code_simp
  have pp: "place_piece three_in_row (nat 3) (current_player three_in_row) = (four_in_row, Some 5)"
    by code_simp
  have cp: "current_player three_in_row = 1" by code_simp
  have win: "check_win_from_move four_in_row (Some 5) 3 1" by code_simp
  have st: "step three_in_row 3 =
     Inr (\<lparr>obs = board four_in_row, reward = 1, is_done = True, info = []\<rparr>, four_in_row)"
    by code_simp
  from win_iff_line_through_placed_cell [OF ok legal] pp cp win
  have "wins four_in_row 5 3 1" by auto
  with ok legal pp st have horizontal:
    "env_ok three_in_row \<and> legal_column three_in_row 3 \<and>
    place_piece three_in_row (nat 3) (current_player three_in_row) = (four_in_row, Some 5) \<and>
    wins four_in_row 5 3 1 \<and>
    step three_in_row 3 =
      Inr (\<lparr>obs = board four_in_row, reward = 1, is_done = True, info = []\<rparr>, four_in_row)"
    by simp
  have vertical:
    "env_ok three_in_column \<and> legal_column three_in_column 0 \<and>
     wins (fst (place_piece three_in_column (nat 0) 1)) 2 0 1 \<and>
     reward (fst (projr (step three_in_column 0))) = 1 \<and>
     is_done (fst (projr (step three_in_column 0)))"
  proof -
    have ok: "env_ok three_in_column" by code_simp
    have legal: "legal_column three_in_column 0" by code_simp
    have cp: "current_player three_in_column = 1" by code_simp
    have pp: "place_piece three_in_column (nat 0) (current_player three_in_column) =
                (fst (place_piece three_in_column (nat 0) 1), Some 2)"
      by code_simp
    have win: "check_win_from_move (fst (place_piece three_in_column (nat 0) 1)) (Some 2) 0 1"
      by code_simp
    from win_iff_line_through_placed_cell [OF ok legal] pp cp win ok legal
    show ?thesis by auto
  qed
  have diagonal:
    "env_ok diagonal_three \<and> legal_column diagonal_three 0 \<and>
     wins (fst (place_piece diagonal_three (nat 0) 1)) 2 0 1 \<and>
     reward (fst (projr (step diagonal_three 0))) = 1 \<and>
     is_done (fst (projr (step diagonal_three 0)))"
  proof -
    have ok: "env_ok diagonal_three" by code_simp
    have legal: "legal_column diagonal_three 0" by code_simp
    have cp: "current_player diagonal_three = 1" by code_simp
    have pp: "place_piece diagonal_three (nat 0) (current_player diagonal_three) =
                (fst (place_piece diagonal_three (nat 0) 1), Some 2)"
      by code_simp
    have win: "check_win_from_move (fst (place_piece diagonal_three (nat 0) 1)) (Some 2) 0 1"
      by code_simp
    from win_iff_line_through_placed_cell [OF ok legal] pp cp win ok legal
    show ?thesis by auto
  qed
  have antidiagonal:
    "env_ok antidiagonal_three \<and> legal_column antidiagonal_three 6 \<and>
     wins (fst (place_piece antidiagonal_three (nat 6) 1)) 2 6 1 \<and>
     reward (fst (projr (step antidiagonal_three 6))) = 1 \<and>
     is_done (fst (projr (step antidiagonal_three 6)))"
  proof -
    have ok: "env_ok antidiagonal_three" by code_simp
    have legal: "legal_column antidiagonal_three 6" by code_simp
    have cp: "current_player antidiagonal_three = 1" by code_simp
    have pp: "place_piece antidiagonal_three (nat 6) (current_player antidiagonal_three) =
                (fst (place_piece antidiagonal_three (nat 6) 1), Some 2)"
      by code_simp
    have win: "check_win_from_move (fst (place_piece antidiagonal_three (nat 6) 1)) (Some 2) 6 1"
      by code_simp
    from win_iff_line_through_placed_cell [OF ok legal] pp cp win ok legal
    show ?thesis by auto
  qed
  from horizontal vertical diagonal antidiagonal show ?thesis by blast
qed

text \<open>
  Claim C2. For a column that is out of range, or whose top cell is occupied, \<open>step\<close>
  returns done with reward -10 and leaves the state as it was: same board, same
  \<open>current_player\<close>. The observation is the board times the unchanged
  \<open>current_player\<close>, and \<open>info\<close> maps \<open>error\<close> to a message that ends in the decimal
  form of the offending player, 1 or -1.
\<close>

theorem illegal_move_ends_episode:
  assumes ok: "env_ok s"
    and bad: "a < 0 \<or> int (cols s) \<le> a \<or> (0 < rows s \<and> board s ! 0 ! nat a \<noteq> 0)"
  shows "\<exists>res s'. step s a = Inr (res, s') \<and> is_done res \<and> reward res = - 10 \<and>
           s' = s \<and> board s' = board s \<and> current_player s' = current_player s \<and>
           obs res = get_observation s \<and>
           (\<forall>r<rows s. \<forall>c<cols s. obs res ! r ! c = board s ! r ! c * current_player s) \<and>
           map_of (info res) ''error'' =
             Some (''Invalid move by player '' @ str_int (current_player s)) \<and>
           str_int (current_player s) = (if current_player s = 1 then ''1'' else ''-1'')"
proof -
  have "current_player s = 1 \<or> current_player s = - 1" using ok by (simp add: env_ok_def)
  then have "str_int (current_player s) = (if current_player s = 1 then ''1'' else ''-1'')"
    by (auto simp: str_int_players)
  then show ?thesis
    unfolding step_illegal [OF ok bad] using get_observation_nth [OF ok] by simp
qed

theorem illegal_move_ends_episode_witness:
  "env_ok column_full \<and> (0 < rows column_full \<and> board column_full ! 0 ! nat 0 \<noteq> 0) \<and>
   is_done (fst (projr (step column_full 0))) \<and>
   reward (fst (projr (step column_full 0))) = - 10 \<and>
   snd (projr (step column_full 0)) = column_full \<and>
   map_of (info (fst (projr (step column_full 0)))) ''error'' = Some ''Invalid move by player 1''"
proof -
  have ok: "env_ok column_full" by code_simp
  have top: "0 < rows column_full \<and> board column_full ! 0 ! nat 0 \<noteq> 0" by code_simp
  then have bad: "(0::int) < 0 \<or> int (cols column_full) \<le> 0 \<or>
             (0 < rows column_full \<and> board column_full ! 0 ! nat 0 \<noteq> 0)"
    by simp
  have cp: "current_player column_full = 1" by code_simp
  from illegal_move_ends_episode [OF ok bad] cp ok top show ?thesis by auto
qed

text \<open>
  Claim C4. On a legal column the piece goes to the lowest empty cell of the column: the
  scan from the bottom row upward stops at the first empty cell \<open>row\<close>, every cell
  below it (at a larger row index) is occupied, the cell \<open>row\<close> receives the mover's
  sign, and every other cell of the column keeps its value.
\<close>

theorem piece_lands_on_lowest_empty_cell:
  assumes ok: "env_ok s" and legal: "legal_column s a"
  shows "\<exists>res s' row. step s a = Inr (res, s') \<and> row < rows s \<and>
           place_piece s (nat a) (current_player s) =
             (s\<lparr>board := (board s)[row := (board s ! row)[nat a := current_player s]]\<rparr>, Some row) \<and>
           board s ! row ! nat a = 0 \<and>
           (\<forall>r. row < r \<and> r < rows s \<longrightarrow> board s ! r ! nat a \<noteq> 0) \<and>
           board s' ! row ! nat a = current_player s \<and>
           (\<forall>r<rows s. r \<noteq> row \<longrightarrow> board s' ! r ! nat a = board s ! r ! nat a)"
proof -
  from step_legal_cases [OF ok legal] obtain row res s' where
    row: "row < rows s" and empty: "board s ! row ! nat a = 0"
    and below: "\<forall>r. row < r \<and> r < rows s \<longrightarrow> board s ! r ! nat a \<noteq> 0"
    and pp: "place_piece s (nat a) (current_player s) = (put s row (nat a) (current_player s), Some row)"
    and st: "step s a = Inr (res, s')"
    and s': "s' = put s row (nat a) (current_player s) \<or>
       s' = (put s row (nat a) (current_player s))\<lparr>current_player := - current_player s\<rparr>"
    by blast
  have col: "nat a < cols s" by (rule legal_in_range [OF legal])
  have b: "board s' = board (put s row (nat a) (current_player s))" using s' by auto
  have placed: "board s' ! row ! nat a = current_player s"
    unfolding b using put_nth [OF ok row col row col] by simp
  have others: "\<forall>r<rows s. r \<noteq> row \<longrightarrow> board s' ! r ! nat a = board s ! r ! nat a"
  proof (intro allI impI)
    fix r assume r: "r < rows s" and ne: "r \<noteq> row"
    show "board s' ! r ! nat a = board s ! r ! nat a"
      unfolding b put_nth [OF ok row col r col] using ne by simp
  qed
  show ?thesis
    using st row pp empty below placed others unfolding put_def
    by (intro exI [of _ res] exI [of _ s'] exI [of _ row]) simp
qed

theorem piece_lands_on_lowest_empty_cell_witness:
  "env_ok three_in_row \<and> legal_column three_in_row 0 \<and>
   (\<exists>row. snd (place_piece three_in_row (nat 0) (current_player three_in_row)) = Some row \<and>
      board three_in_row ! row ! nat 0 = 0)"
proof -
  have ok: "env_ok three_in_row" by code_simp
  have legal: "legal_column three_in_row 0" by code_simp
  from piece_lands_on_lowest_empty_cell [OF ok legal] ok legal show ?thesis by auto
qed

text \<open>
  Claim C5. A legal step whose placement is no win, and after which every cell of the top
  row is occupied, is a draw: reward 0, done, and \<open>current_player\<close> is not flipped.
\<close>

theorem full_top_row_without_win_is_draw:
  assumes ok: "env_ok s" and legal: "legal_column s a"
    and pp: "place_piece s (nat a) (current_player s) = (s1, Some row)"
    and nowin: "\<not> wins s1 row a (current_player s)"
    and full: "top_full s1"
  shows "\<exists>res s'. step s a = Inr (res, s') \<and> reward res = 0 \<and> is_done res \<and>
           board s' = board s1 \<and> current_player s' = current_player s"
proof -
  from place_piece_legal [OF ok legal, of "current_player s"] pp
  have "current_player s1 = current_player s" by auto
  then show ?thesis using step_legal [OF ok legal pp] nowin full by simp
qed

theorem full_top_row_without_win_is_draw_witness:
  "env_ok last_cell_open \<and> legal_column last_cell_open 6 \<and>
   place_piece last_cell_open (nat 6) (current_player last_cell_open) = (board_full, Some 0) \<and>
   \<not> wins board_full 0 6 (current_player last_cell_open) \<and> top_full board_full \<and>
   reward (fst (projr (step last_cell_open 6))) = 0 \<and> is_done (fst (projr (step last_cell_open 6))) \<and>
   current_player (snd (projr (step last_cell_open 6))) = current_player last_cell_open"
proof -
  have ok: "env_ok last_cell_open" by code_simp
  have legal: "legal_column last_cell_open 6" by code_simp
  have pp: "place_piece last_cell_open (nat 6) (current_player last_cell_open) = (board_full, Some 0)"
    by code_simp
  have here: "cell_is board_full (int 0) 6 (current_player last_cell_open)" by code_simp
  have "\<not> check_win_from_move board_full (Some 0) 6 (current_player last_cell_open)" by code_simp
  then have nowin: "\<not> wins board_full 0 6 (current_player last_cell_open)"
    using check_win_iff [OF here] by simp
  have full: "top_full board_full" by code_simp
  from full_top_row_without_win_is_draw [OF ok legal pp nowin full] ok legal pp nowin full
  show ?thesis by auto
qed

text \<open>
  Claim C6. A legal step that is neither a win nor a draw returns reward 0 and not done,
  and negates \<open>current_player\<close>. Both values are 1 or -1, and a second step that is
  not terminal either negates it again, back to the first value: the player alternates.
\<close>

theorem continuing_step_flips_player:
  assumes ok: "env_ok s" and legal: "legal_column s a"
    and pp: "place_piece s (nat a) (current_player s) = (s1, Some row)"
    and nowin: "\<not> wins s1 row a (current_player s)"
    and nodraw: "\<not> top_full s1"
  shows "\<exists>res s'. step s a = Inr (res, s') \<and> reward res = 0 \<and> \<not> is_done res \<and>
           board s' = board s1 \<and> current_player s' = - current_player s \<and>
           current_player s \<in> {1, - 1} \<and> current_player s' \<in> {1, - 1} \<and>
           (\<forall>b res2 s''. step s' b = Inr (res2, s'') \<and> \<not> is_done res2 \<longrightarrow>
              current_player s'' = - current_player s' \<and> current_player s'' = current_player s)"
proof -
  from place_piece_legal [OF ok legal, of "current_player s"] pp
  have s1: "\<exists>r. s1 = put s r (nat a) (current_player s)" by auto
  have cp: "current_player s \<in> {1, - 1}" using ok by (simp add: env_ok_def)
  let ?s' = "s1\<lparr>current_player := - current_player s\<rparr>"
  have st: "step s a = Inr (\<lparr>obs = get_observation ?s', reward = 0, is_done = False, info = []\<rparr>, ?s')"
    using step_legal [OF ok legal pp] nowin nodraw by simp
  have ok1: "env_ok s1" using s1 put_env_ok [OF ok cp] by auto
  have ok': "env_ok ?s'" using cp by (intro env_ok_player [OF ok1]) auto
  have next_step: "current_player s'' = - current_player ?s'"
    if "step ?s' b = Inr (res2, s'')" "\<not> is_done res2" for b res2 s''
  proof (cases ?s' b rule: column_cases)
    case illegal
    then show ?thesis using step_illegal [OF ok' illegal] that by simp
  next
    case legal
    from place_piece_legal [OF ok' legal, of "current_player ?s'"] obtain r2 where
      pp2: "place_piece ?s' (nat b) (current_player ?s') =
              (put ?s' r2 (nat b) (current_player ?s'), Some r2)"
      by blast
    show ?thesis
      using step_legal [OF ok' legal pp2] that by (auto split: if_splits)
  next
    case no_rows
    then show ?thesis using step_no_rows [OF ok'] that by simp
  qed
  show ?thesis
    unfolding st using cp next_step by auto
qed

theorem continuing_step_flips_player_witness:
  "env_ok (init 6 7 4) \<and> legal_column (init 6 7 4) 3 \<and>
   \<not> wins (fst (place_piece (init 6 7 4) (nat 3) 1)) 5 3 (current_player (init 6 7 4)) \<and>
   \<not> top_full (fst (place_piece (init 6 7 4) (nat 3) 1)) \<and>
   current_player (init 6 7 4) = 1 \<and>
   current_player (snd (projr (step (init 6 7 4) 3))) = - 1 \<and>
   \<not> is_done (fst (projr (step (init 6 7 4) 3)))"
proof -
  let ?s1 = "fst (place_piece (init 6 7 4) (nat 3) 1)"
  have ok: "env_ok (init 6 7 4)" by code_simp
  have legal: "legal_column (init 6 7 4) 3" by code_simp
  have cp: "current_player (init 6 7 4) = 1" by code_simp
  have pp: "place_piece (init 6 7 4) (nat 3) (current_player (init 6 7 4)) = (?s1, Some 5)"
    by code_simp
  have here: "cell_is ?s1 (int 5) 3 (current_player (init 6 7 4))" by code_simp
  have "\<not> check_win_from_move ?s1 (Some 5) 3 (current_player (init 6 7 4))" by code_simp
  then have nowin: "\<not> wins ?s1 5 3 (current_player (init 6 7 4))"
    using check_win_iff [OF here] by simp
  have nodraw: "\<not> top_full ?s1" by code_simp
  from continuing_step_flips_player [OF ok legal pp nowin nodraw] ok legal nowin nodraw cp
  show ?thesis by auto
qed

text \<open>
  Claim C10. A legal step changes exactly one cell of the board: the cell where the piece
  lands goes from 0 to the mover's sign, which is not 0, and every other cell keeps its
  value.
\<close>

theorem legal_step_changes_one_cell:
  assumes ok: "env_ok s" and legal: "legal_column s a"
  shows "\<exists>res s' row. step s a = Inr (res, s') \<and> row < rows s \<and>
           board s ! row ! nat a = 0 \<and> board s' ! row ! nat a = current_player s \<and>
           current_player s \<noteq> 0 \<and>
           board s' = (board s)[row := (board s ! row)[nat a := current_player s]] \<and>
           (\<forall>r<rows s. \<forall>c<cols s. (r, c) \<noteq> (row, nat a) \<longrightarrow> board s' ! r ! c = board s ! r ! c)"
proof -
  from step_legal_cases [OF ok legal] obtain row res s' where
    row: "row < rows s" and empty: "board s ! row ! nat a = 0"
    and below: "\<forall>r. row < r \<and> r < rows s \<longrightarrow> board s ! r ! nat a \<noteq> 0"
    and pp: "place_piece s (nat a) (current_player s) = (put s row (nat a) (current_player s), Some row)"
    and st: "step s a = Inr (res, s')"
    and s': "s' = put s row (nat a) (current_player s) \<or>
       s' = (put s row (nat a) (current_player s))\<lparr>current_player := - current_player s\<rparr>"
    by blast
  have col: "nat a < cols s" by (rule legal_in_range [OF legal])
  have b: "board s' = board (put s row (nat a) (current_player s))" using s' by auto
  have placed: "board s' ! row ! nat a = current_player s"
    unfolding b using put_nth [OF ok row col row col] by simp
  have others: "\<forall>r<rows s. \<forall>c<cols s. (r, c) \<noteq> (row, nat a) \<longrightarrow> board s' ! r ! c = board s ! r ! c"
  proof (intro allI impI)
    fix r c assume r: "r < rows s" and c: "c < cols s" and ne: "(r, c) \<noteq> (row, nat a)"
    show "board s' ! r ! c = board s ! r ! c"
      unfolding b put_nth [OF ok row col r c] using ne by auto
  qed
  have upd: "board s' = (board s)[row := (board s ! row)[nat a := current_player s]]"
    unfolding b by (simp add: put_def)
  have "current_player s \<in> {1, - 1}" using ok by (simp add: env_ok_def)
  then have nz: "current_player s \<noteq> 0" by auto
  show ?thesis
    by (rule exI [of _ res], rule exI [of _ s'], rule exI [of _ row])
      (intro conjI st row empty placed nz upd others)
qed

theorem legal_step_changes_one_cell_witness:
  "env_ok three_in_row \<and> legal_column three_in_row 0 \<and>
   (\<exists>row. board (snd (projr (step three_in_row 0))) =
      (board three_in_row)[row := (board three_in_row ! row)[nat 0 := current_player three_in_row]])"
proof -
  have ok: "env_ok three_in_row" by code_simp
  have legal: "legal_column three_in_row 0" by code_simp
  from legal_step_changes_one_cell [OF ok legal] ok legal show ?thesis by auto
qed

text \<open>
  Claim C7. On a board with a top row, \<open>get_valid_actions\<close> returns the columns whose top
  cell is empty, each once and in ascending order. The result is a function of the board:
  it does not depend on \<open>current_player\<close> or \<open>win_length\<close>, and the call changes no
  state. After \<open>reset\<close> of any state \<open>s0\<close> whose board has a top row it is the list of
  all columns, so on a 6 by 7 board, whatever it held before, it is 0, ..., 6.
\<close>

theorem valid_actions_are_open_columns:
  assumes ok: "env_ok s" and rows: "0 < rows s"
  shows "\<exists>xs. get_valid_actions s = Inr xs \<and>
           set xs = {c. c < cols s \<and> board s ! 0 ! c = 0} \<and>
           sorted_wrt (<) xs \<and>
           get_valid_actions (s\<lparr>current_player := p, win_length := w\<rparr>) = Inr xs \<and>
           (0 < rows s0 \<longrightarrow> get_valid_actions (snd (reset s0)) = Inr [0..<cols s0]) \<and>
           (rows s0 = 6 \<and> cols s0 = 7 \<longrightarrow>
              get_valid_actions (snd (reset s0)) = Inr [0, 1, 2, 3, 4, 5, 6])"
proof -
  let ?xs = "filter (\<lambda>c. board s ! 0 ! c = 0) [0..<cols s]"
  have eq: "get_valid_actions s = Inr ?xs"
    unfolding get_valid_actions_def by (rule valid_from_filter [OF ok rows]) simp
  have set: "set ?xs = {c. c < cols s \<and> board s ! 0 ! c = 0}" by auto
  have "sorted_wrt (<) [0..<cols s]" by (rule sorted_wrt_upt)
  then have asc: "sorted_wrt (<) ?xs" by (rule sorted_wrt_filter)
  have same: "get_valid_actions (s\<lparr>current_player := p, win_length := w\<rparr>) = Inr ?xs"
    using eq valid_from_board [of "s\<lparr>current_player := p, win_length := w\<rparr>" s "[0..<cols s]"]
    by (simp add: get_valid_actions_def)
  have fresh: "0 < rows s0 \<longrightarrow> get_valid_actions (snd (reset s0)) = Inr [0..<cols s0]"
    by (rule impI) (rule reset_valid_actions)
  have upt7: "[0..<7] = [0, 1, 2, 3, 4, 5, 6 :: nat]" by code_simp
  have dflt: "rows s0 = 6 \<and> cols s0 = 7 \<longrightarrow>
                get_valid_actions (snd (reset s0)) = Inr [0, 1, 2, 3, 4, 5, 6]"
  proof
    assume d: "rows s0 = 6 \<and> cols s0 = 7"
    then have "0 < rows s0" by simp
    from reset_valid_actions [OF this] d upt7
    show "get_valid_actions (snd (reset s0)) = Inr [0, 1, 2, 3, 4, 5, 6]" by simp
  qed
  show ?thesis
    by (rule exI [of _ ?xs]) (intro conjI eq set asc same fresh dflt)
qed

theorem valid_actions_are_open_columns_witness:
  "env_ok column_full \<and> 0 < rows column_full \<and>
   get_valid_actions column_full = Inr [1, 2, 3, 4, 5, 6] \<and>
   sorted_wrt (<) [1, 2, 3, 4, 5, 6 :: nat] \<and>
   rows column_full = 6 \<and> cols column_full = 7 \<and>
   get_valid_actions (snd (reset column_full)) = Inr [0, 1, 2, 3, 4, 5, 6]"
proof -
  have ok: "env_ok column_full" by code_simp
  have rows: "0 < rows column_full" by code_simp
  have dims: "rows column_full = 6 \<and> cols column_full = 7" by code_simp
  have v: "get_valid_actions column_full = Inr [1, 2, 3, 4, 5, 6]" by code_simp
  note inst = valid_actions_are_open_columns [OF ok rows, of 1 4 column_full]
  from inst v have asc: "sorted_wrt (<) [1, 2, 3, 4, 5, 6 :: nat]" by auto
  from inst dims have "get_valid_actions (snd (reset column_full)) = Inr [0, 1, 2, 3, 4, 5, 6]"
    by blast
  with ok rows dims v asc show ?thesis by simp
qed

text \<open>
  Claim C3 as stated fails. The class keeps no terminal flag: \<open>step\<close> applies the same
  rules whatever an earlier call returned. From the start position, column 7 is an illegal
  move that returns done and leaves the state as it was; a following \<open>step\<close> on column 3
  stores a piece and flips the player. Likewise, after the win of player 1 in
  \<open>three_in_row\<close>, a \<open>step\<close> on column 4 changes the board.
\<close>

theorem step_after_terminal_return_counterexample:
  "step (init 6 7 4) 7 =
     Inr (\<lparr>obs = zeros 6 7, reward = - 10, is_done = True,
           info = [(''error'', ''Invalid move by player 1'')]\<rparr>, init 6 7 4) \<and>
   step (init 6 7 4) 3 =
     Inr (\<lparr>obs = [[0, 0, 0, 0, 0, 0, 0],
                  [0, 0, 0, 0, 0, 0, 0],
                  [0, 0, 0, 0, 0, 0, 0],
                  [0, 0, 0, 0, 0, 0, 0],
                  [0, 0, 0, 0, 0, 0, 0],
                  [0, 0, 0, - 1, 0, 0, 0]], reward = 0, is_done = False, info = []\<rparr>,
          \<lparr>rows = 6, cols = 7, win_length = 4, board =
                 [[0, 0, 0, 0, 0, 0, 0],
                  [0, 0, 0, 0, 0, 0, 0],
                  [0, 0, 0, 0, 0, 0, 0],
                  [0, 0, 0, 0, 0, 0, 0],
                  [0, 0, 0, 0, 0, 0, 0],
                  [0, 0, 0, 1, 0, 0, 0]], current_player = - 1\<rparr>) \<and>
   board (snd (projr (step (snd (projr (step (init 6 7 4) 7))) 3)))
     \<noteq> board (snd (projr (step (init 6 7 4) 7))) \<and>
   step three_in_row 3 =
     Inr (\<lparr>obs = board four_in_row, reward = 1, is_done = True, info = []\<rparr>, four_in_row) \<and>
   board (snd (projr (step four_in_row 4))) \<noteq> board four_in_row"
  by code_simp

text \<open>
  Claim C3, amended. Once \<open>step\<close> has returned done by draw, that is with reward 0, the
  top row is full: every later \<open>step\<close>, whatever its column, is an illegal move that
  returns done with reward -10 and the state it was given, and every sequence of \<open>step\<close>
  calls leaves the board and \<open>current_player\<close> unchanged.
\<close>

theorem no_step_changes_state_after_draw:
  assumes ok: "env_ok s" and st: "step s a = Inr (res, s')"
    and d: "is_done res" and r: "reward res = 0"
  shows "steps s' bs = Inr s' \<and>
         step s' b = Inr (\<lparr>obs = get_observation s', reward = - 10, is_done = True,
           info = [(''error'', ''Invalid move by player '' @ str_int (current_player s'))]\<rparr>, s')"
proof -
  from draw_return_state [OF ok st d r]
  have ok': "env_ok s'" and rows: "0 < rows s'" and full: "top_full s'" by simp_all
  show ?thesis
    using steps_all_illegal [OF ok' rows full]
      step_illegal [OF ok' top_full_illegal [OF ok' rows full, of b]] by simp
qed

theorem no_step_changes_state_after_draw_witness:
  "env_ok last_cell_open \<and>
   step last_cell_open 6 =
     Inr (\<lparr>obs = get_observation board_full, reward = 0, is_done = True, info = []\<rparr>, board_full) \<and>
   steps board_full [3, 7, 0] = Inr board_full"
proof -
  have ok: "env_ok last_cell_open" by code_simp
  have st: "step last_cell_open 6 =
     Inr (\<lparr>obs = get_observation board_full, reward = 0, is_done = True, info = []\<rparr>, board_full)"
    by code_simp
  from no_step_changes_state_after_draw [OF ok st, of "[3, 7, 0]"] ok st show ?thesis by simp
qed

text \<open>
  Claim C8. The observation returned by \<open>reset\<close>, and by \<open>step\<close> whenever it returns, is
  cell by cell the board times \<open>current_player\<close>, both taken from the state the call
  leaves; every such value is -1, 0 or 1. The statement quantifies over every column, so
  it covers the illegal, win, draw and continue branches alike.
\<close>

theorem observation_is_board_times_player:
  assumes ok: "env_ok s" and r: "r < rows s" and c: "c < cols s"
  shows "fst (reset s) ! r ! c = board (snd (reset s)) ! r ! c * current_player (snd (reset s)) \<and>
         fst (reset s) ! r ! c \<in> {- 1, 0, 1} \<and>
         (\<forall>a res s'. step s a = Inr (res, s') \<longrightarrow>
            obs res ! r ! c = board s' ! r ! c * current_player s' \<and>
            obs res ! r ! c \<in> {- 1, 0, 1})"
proof -
  have r0: "r < rows (snd (reset s))" and c0: "c < cols (snd (reset s))" using r c by simp_all
  have a: "fst (reset s) ! r ! c = board (snd (reset s)) ! r ! c * current_player (snd (reset s))"
    using get_observation_nth [OF reset_env_ok r0 c0] by simp
  have b: "fst (reset s) ! r ! c \<in> {- 1, 0, 1}"
    using observation_values [OF reset_env_ok r0 c0] by simp
  have st: "obs res ! r ! c = board s' ! r ! c * current_player s' \<and> obs res ! r ! c \<in> {- 1, 0, 1}"
    if "step s a = Inr (res, s')" for a res s'
  proof -
    from step_invariant [OF ok that] have ok': "env_ok s'" and o: "obs res = get_observation s'"
      and r': "r < rows s'" and c': "c < cols s'" using r c by simp_all
    show ?thesis
      unfolding o using get_observation_nth [OF ok' r' c'] observation_values [OF ok' r' c'] by simp
  qed
  from a b st show ?thesis by blast
qed

theorem observation_is_board_times_player_witness:
  "env_ok three_in_row \<and> (5::nat) < rows three_in_row \<and> (3::nat) < cols three_in_row \<and>
   fst (reset three_in_row) ! 5 ! 3 = 0 \<and>
   obs (fst (projr (step three_in_row 3))) ! 5 ! 3 = 1 \<and>
   board (snd (projr (step three_in_row 3))) ! 5 ! 3 = 1 \<and>
   current_player (snd (projr (step three_in_row 3))) = 1"
proof -
  have ok: "env_ok three_in_row" by code_simp
  have r: "(5::nat) < rows three_in_row" by code_simp
  have c: "(3::nat) < cols three_in_row" by code_simp
  have st: "step three_in_row 3 =
     Inr (\<lparr>obs = board four_in_row, reward = 1, is_done = True, info = []\<rparr>, four_in_row)"
    by code_simp
  have b: "board four_in_row ! 5 ! 3 = 1" "current_player four_in_row = 1"
    "board (snd (reset three_in_row)) ! 5 ! 3 = 0"
    by code_simp+
  from observation_is_board_times_player [OF ok r c] st b ok r c show ?thesis by auto
qed

text \<open>
  Claim C9. Every state reached from \<open>reset\<close> by a sequence of \<open>step\<close> calls has the
  shape and value ranges of \<open>env_ok\<close> (every cell is -1, 0 or 1 and \<open>current_player\<close>
  is 1 or -1) and satisfies \<open>gravity\<close>: in no column is there an empty cell below an
  occupied one.
\<close>

theorem reachable_states_are_well_formed:
  assumes "steps (snd (reset s0)) as = Inr s"
  shows "env_ok s \<and> gravity s \<and>
         (\<forall>r<rows s. \<forall>c<cols s. board s ! r ! c \<in> {- 1, 0, 1}) \<and>
         current_player s \<in> {1, - 1}"
proof -
  from steps_invariant [OF reset_env_ok reset_gravity assms]
  have ok: "env_ok s" and g: "gravity s" by simp_all
  have cells: "\<forall>r<rows s. \<forall>c<cols s. board s ! r ! c \<in> {- 1, 0, 1}"
    using env_ok_cell [OF ok] by blast
  have "current_player s \<in> {1, - 1}" using ok by (simp add: env_ok_def)
  with ok g cells show ?thesis by blast
qed

theorem reachable_states_are_well_formed_witness:
  "steps (snd (reset (init 6 7 4))) [0, 0, 1, 1, 2, 2] = Inr three_in_row \<and>
   env_ok three_in_row \<and> gravity three_in_row"
proof -
  have st: "steps (snd (reset (init 6 7 4))) [0, 0, 1, 1, 2, 2] = Inr three_in_row" by code_simp
  from reachable_states_are_well_formed [OF st] st show ?thesis by simp
qed

end
